theory Spec2Isabelle
  imports Main
begin

section \<open>Path tableaux: the local rule and the operators derived from it\<close>

text \<open>
  The development follows \<^verbatim>\<open>src/sage/categories/pathtableaux.py\<close>, class
  \<^verbatim>\<open>PathTableaux.ElementMethods\<close>. An element is a finite sequence of objects of
  some type \<open>'a\<close>; it is modelled as an \<open>'a list\<close>, compared by value. The abstract
  method \<^verbatim>\<open>_rule\<close> receives the slice it is called with, so it is a parameter
  \<open>rule\<close> of type \<open>'a list \<Rightarrow> 'a\<close>. The constructor call \<^verbatim>\<open>self.parent()(L)\<close>
  wraps a list as an element again and is the identity on lists here. Python integers
  that arrive as arguments are \<open>int\<close>; positions inside a list are \<open>nat\<close>.
\<close>

subsection \<open>Exceptions\<close>

text \<open>
  The exceptions the methods can end with. The two \<^verbatim>\<open>ValueError\<close>s are the ones the
  source raises itself: \<^verbatim>\<open>ValueError("%d is not a valid integer." % i)\<close> carries the
  offending integer, \<^verbatim>\<open>ValueError("Integers out of bounds.")\<close> carries nothing.
  \<^verbatim>\<open>IndexError\<close> is what \<^verbatim>\<open>list.pop\<close> raises on an empty list, and
  \<^verbatim>\<open>NameError\<close> carries the name that is not bound.
\<close>

datatype error =
    ValueError_not_valid_integer int
  | ValueError_out_of_bounds
  | IndexError
  | NameError string

datatype exception_class = ValueError_class | IndexError_class | NameError_class

fun class_of :: "error \<Rightarrow> exception_class" where
  "class_of (ValueError_not_valid_integer i) = ValueError_class"
| "class_of ValueError_out_of_bounds = ValueError_class"
| "class_of IndexError = IndexError_class"
| "class_of (NameError n) = NameError_class"

subsection \<open>Book keeping\<close>

definition size_of :: "'a list \<Rightarrow> int" where
  "size_of self = int (length self)"

text \<open>The slice \<^verbatim>\<open>xs[lo:hi]\<close> for \<open>0 \<le> lo\<close>: it is cut off at the end of the list.\<close>

definition slice :: "nat \<Rightarrow> nat \<Rightarrow> 'a list \<Rightarrow> 'a list" where
  "slice lo hi xs = take (hi - lo) (drop lo xs)"

text \<open>\<^verbatim>\<open>L.pop()\<close>: the last element and the list without it.\<close>

definition pop :: "'a list \<Rightarrow> error + ('a \<times> 'a list)" where
  "pop L = (if L = [] then Inl IndexError else Inr (last L, butlast L))"

subsection \<open>The local rule\<close>

definition local_rule :: "('a list \<Rightarrow> 'a) \<Rightarrow> 'a list \<Rightarrow> int \<Rightarrow> error + 'a list" where
  "local_rule rule self i =
     (if \<not> (i > 0 \<and> i < int (length self)) then Inl (ValueError_not_valid_integer i)
      else
        let k = nat i;
            result = self
        in Inr (result[k := rule (slice (k - 1) (k + 2) self)]))"

subsection \<open>Promotion\<close>

text \<open>One pass of the loop body \<^verbatim>\<open>result[i] = self._rule(result[i-1:i+2])\<close>.\<close>

definition promotion_step :: "('a list \<Rightarrow> 'a) \<Rightarrow> nat \<Rightarrow> 'a list \<Rightarrow> 'a list" where
  "promotion_step rule i result = result[i := rule (slice (i - 1) (i + 2) result)]"

definition promotion :: "('a list \<Rightarrow> 'a) \<Rightarrow> 'a list \<Rightarrow> 'a list" where
  "promotion rule self = fold (promotion_step rule) [1..<length self - 1] self"

subsection \<open>Evacuation\<close>

text \<open>
  The loop \<^verbatim>\<open>for i in range(len(self))\<close> of \<^verbatim>\<open>evacuation\<close>; the loop variable
  is not read by the body, so the first argument counts the rounds that remain. The
  state is the working list \<open>L\<close> and the list \<open>result\<close> of popped objects.
\<close>

fun evacuation_loop ::
  "('a list \<Rightarrow> 'a) \<Rightarrow> nat \<Rightarrow> 'a list \<Rightarrow> 'a list \<Rightarrow> error + ('a list \<times> 'a list)" where
  "evacuation_loop rule 0 L result = Inr (L, result)"
| "evacuation_loop rule (Suc n) L result =
     (case pop (promotion rule L) of
        Inl e \<Rightarrow> Inl e
      | Inr (x, L') \<Rightarrow> evacuation_loop rule n L' (result @ [x]))"

definition evacuation :: "('a list \<Rightarrow> 'a) \<Rightarrow> 'a list \<Rightarrow> error + 'a list" where
  "evacuation rule self =
     (if size_of self < 3 then Inr self
      else
        case evacuation_loop rule (length self) self [] of
          Inl e \<Rightarrow> Inl e
        | Inr (L, result) \<Rightarrow> Inr (rev result))"

subsection \<open>The generators of the cactus group\<close>

function cactus :: "('a list \<Rightarrow> 'a) \<Rightarrow> 'a list \<Rightarrow> int \<Rightarrow> int \<Rightarrow> error + 'a list" where
  "cactus rule self i j =
     (if \<not> (0 < i \<and> i < j \<and> j < size_of self) then Inl ValueError_out_of_bounds
      else if i = j then Inr self
      else if i = 1 then
        (let h = take (nat (j - 1)) self;
             t = drop (nat (j - 1)) self
         in case evacuation rule h of
              Inl e \<Rightarrow> Inl e
            | Inr T \<Rightarrow> Inr (T @ t))
      else
        (case cactus rule self 1 j of
           Inl e \<Rightarrow> Inl e
         | Inr a \<Rightarrow>
             (case cactus rule a 1 (j - i) of
                Inl e \<Rightarrow> Inl e
              | Inr b \<Rightarrow> cactus rule b 1 j)))"
  by pat_completeness auto
termination
  by (relation "measure (\<lambda>(rule, self, i, j). if i = 1 then 0 else 1)") auto

declare cactus.simps [simp del]

subsection \<open>The cylindrical diagram\<close>

text \<open>
  A cell of the diagram is \<open>None\<close> (the placeholder) or \<open>Some\<close> object. The loop state
  is the table and the current element \<open>T\<close>; round \<open>i\<close> replaces row \<open>i\<close> of the table.
\<close>

definition cylindrical_step ::
  "('a list \<Rightarrow> 'a) \<Rightarrow> nat \<Rightarrow> 'a option list list \<times> 'a list \<Rightarrow> 'a option list list \<times> 'a list" where
  "cylindrical_step rule i st =
     (case st of (result, T) \<Rightarrow>
        (result[i := replicate i None @ map Some T], promotion rule T))"

definition cylindrical_diagram :: "('a list \<Rightarrow> 'a) \<Rightarrow> 'a list \<Rightarrow> 'a option list list" where
  "cylindrical_diagram rule self =
     (let n = length self;
          result = replicate n (replicate (2 * n - 1) None)
      in fst (fold (cylindrical_step rule) [0..<n] (result, self)))"

subsection \<open>Checks\<close>

definition check_promotion :: "('a list \<Rightarrow> 'a) \<Rightarrow> 'a list \<Rightarrow> error + bool" where
  "check_promotion rule self =
     (let n = size_of self;
          lhs = promotion rule self
      in case cactus rule self 1 n of
           Inl e \<Rightarrow> Inl e
         | Inr a \<Rightarrow>
             (case cactus rule a 2 n of
                Inl e \<Rightarrow> Inl e
              | Inr rhs \<Rightarrow> Inr (lhs = rhs)))"

subsection \<open>The orbit\<close>

text \<open>
  The inner loop \<^verbatim>\<open>for i in range(self.size())\<close> of \<^verbatim>\<open>orbit\<close> for one element
  \<open>a\<close> of the frontier \<open>rec\<close>, and the loop over the frontier. The sets \<open>orb\<close> and \<open>rec\<close>
  are only read; \<open>new\<close> collects what is found.
\<close>

fun orbit_generators ::
  "('a list \<Rightarrow> 'a) \<Rightarrow> 'a list \<Rightarrow> nat list \<Rightarrow> 'a list set \<Rightarrow> 'a list set \<Rightarrow> 'a list set
     \<Rightarrow> error + 'a list set" where
  "orbit_generators rule a [] orb rec new = Inr new"
| "orbit_generators rule a (i # is) orb rec new =
     (case cactus rule a 1 (int i + 1) of
        Inl e \<Rightarrow> Inl e
      | Inr b \<Rightarrow>
          orbit_generators rule a is orb rec
            (if b \<notin> orb \<and> b \<notin> rec then insert b new else new))"

fun orbit_sweep ::
  "('a list \<Rightarrow> 'a) \<Rightarrow> nat \<Rightarrow> 'a list list \<Rightarrow> 'a list set \<Rightarrow> 'a list set \<Rightarrow> 'a list set
     \<Rightarrow> error + 'a list set" where
  "orbit_sweep rule n [] orb rec new = Inr new"
| "orbit_sweep rule n (a # as) orb rec new =
     (case orbit_generators rule a [0..<n] orb rec new of
        Inl e \<Rightarrow> Inl e
      | Inr new' \<Rightarrow> orbit_sweep rule n as orb rec new')"

text \<open>
  \<^verbatim>\<open>orbit\<close> itself. The frontier starts as the one-element set holding \<open>self\<close>, so
  the \<^verbatim>\<open>while\<close> loop is entered. The statement after the sweep,
  \<^verbatim>\<open>orbit.join(new)\<close>, reads the name \<^verbatim>\<open>orbit\<close>, which is bound neither in the
  method nor in the module: the first round of the loop ends with that
  \<^verbatim>\<open>NameError\<close> unless the sweep has raised before, and no second round exists.
\<close>

definition orbit :: "('a list \<Rightarrow> 'a) \<Rightarrow> 'a list \<Rightarrow> error + 'a list set" where
  "orbit rule self =
     (let orb = {};
          rec = [self];
          new = {}
      in if set rec \<noteq> {} then
           (case orbit_sweep rule (length self) rec orb (set rec) new of
              Inl e \<Rightarrow> Inl e
            | Inr new' \<Rightarrow> Inl (NameError ''orbit''))
         else Inr orb)"

subsection \<open>The contract of the rule, and an instance\<close>

text \<open>
  The key property asked of \<^verbatim>\<open>_rule\<close>: on lists of length three, replacing the
  middle term by the output of the rule is an involution.
\<close>

definition involutive :: "('a list \<Rightarrow> 'a) \<Rightarrow> bool" where
  "involutive rule = (\<forall>a b c. rule [a, rule [a, b, c], c] = b)"

text \<open>An instance over the integers: the middle term is reflected in its neighbours.\<close>

definition reflect :: "int list \<Rightarrow> int" where
  "reflect p = (case p of [a, b, c] \<Rightarrow> a + c - b | _ \<Rightarrow> 0)"

subsection \<open>The growth triangle of evacuation\<close>

text \<open>
  What one round of the evacuation loop does to the working list, the working list
  after \<open>k\<close> rounds, and the list of popped objects read backwards.
\<close>

definition evacuation_round :: "('a list \<Rightarrow> 'a) \<Rightarrow> 'a list \<Rightarrow> 'a list" where
  "evacuation_round rule L = butlast (promotion rule L)"

definition growth_row :: "('a list \<Rightarrow> 'a) \<Rightarrow> 'a list \<Rightarrow> nat \<Rightarrow> 'a list" where
  "growth_row rule s k = (evacuation_round rule ^^ k) s"

definition evacuated :: "('a list \<Rightarrow> 'a) \<Rightarrow> 'a list \<Rightarrow> 'a list" where
  "evacuated rule s = rev (map (\<lambda>k. last (growth_row rule s k)) [0..<length s])"

text \<open>
  The list that \<^verbatim>\<open>evacuation\<close> returns, and the list that the branch \<^verbatim>\<open>i == 1\<close> of
  \<^verbatim>\<open>cactus\<close> builds from a head of \<open>k\<close> objects and the tail behind it.
\<close>

definition evacuation_result :: "('a list \<Rightarrow> 'a) \<Rightarrow> 'a list \<Rightarrow> 'a list" where
  "evacuation_result rule s = (if length s < 3 then s else evacuated rule s)"

definition head_evacuated :: "('a list \<Rightarrow> 'a) \<Rightarrow> nat \<Rightarrow> 'a list \<Rightarrow> 'a list" where
  "head_evacuated rule k s = evacuation_result rule (take k s) @ drop k s"

subsection \<open>The local rule on a store of lists\<close>

text \<open>
  \<^verbatim>\<open>local_rule\<close> once more, with the lists it touches kept in a store, so that what
  it writes is visible. A reference is a position in the store. \<^verbatim>\<open>list(self)\<close>
  allocates a copy, the assignment \<^verbatim>\<open>result[i] = ...\<close> writes into that copy, and
  \<^verbatim>\<open>self.parent()(result)\<close> allocates the element that is returned.
\<close>

type_synonym 'a store = "'a list list"

definition new_list :: "'a list \<Rightarrow> 'a store \<Rightarrow> nat \<times> 'a store" where
  "new_list xs st = (length st, st @ [xs])"

definition local_rule_store ::
  "('a list \<Rightarrow> 'a) \<Rightarrow> 'a store \<Rightarrow> nat \<Rightarrow> int \<Rightarrow> error + (nat \<times> 'a store)" where
  "local_rule_store rule st self i =
     (if \<not> (i > 0 \<and> i < int (length (st ! self))) then Inl (ValueError_not_valid_integer i)
      else
        let k = nat i;
            (result, st1) = new_list (st ! self) st;
            st2 = st1[result := (st1 ! result)[k := rule (slice (k - 1) (k + 2) (st1 ! self))]];
            (element, st3) = new_list (st2 ! result) st2
        in Inr (element, st3))"

section \<open>Promotion, position by position\<close>

lemma slice_triple:
  assumes "1 \<le> i" "i + 1 < length xs"
  shows "slice (i - 1) (i + 2) xs = [xs ! (i - 1), xs ! i, xs ! (i + 1)]"
proof -
  obtain k where k: "i = Suc k" using assms(1) by (cases i) auto
  have "take 3 (drop k xs) = [xs ! k, xs ! Suc k, xs ! Suc (Suc k)]"
    using assms(2) k
    by (simp add: numeral_3_eq_3 take_Suc_conv_app_nth)
  then show ?thesis using k by (simp add: slice_def)
qed

lemma length_promotion_step [simp]: "length (promotion_step rule i xs) = length xs"
  by (simp add: promotion_step_def)

lemma promotion_step_nth:
  "i < length xs \<Longrightarrow>
   promotion_step rule i xs ! m = (if m = i then rule (slice (i - 1) (i + 2) xs) else xs ! m)"
  by (simp add: promotion_step_def)

lemma length_fold_promotion_step [simp]:
  "length (fold (promotion_step rule) is xs) = length xs"
  by (induction "is" arbitrary: xs) auto

lemma length_promotion [simp]: "length (promotion rule xs) = length xs"
  by (simp add: promotion_def)

lemma fold_promotion_step_untouched:
  "m \<notin> set is \<Longrightarrow> fold (promotion_step rule) is xs ! m = xs ! m"
  by (induction "is" arbitrary: xs) (auto simp: promotion_step_def)

lemma fold_promotion_step_rule:
  assumes "1 \<le> m" "m < j" "j < length xs"
  shows "fold (promotion_step rule) [1..<j] xs ! m =
         rule [fold (promotion_step rule) [1..<j] xs ! (m - 1), xs ! m, xs ! (m + 1)]"
  using assms
proof (induction j)
  case 0
  then show ?case by simp
next
  case (Suc j)
  let ?r = "fold (promotion_step rule) [1..<j] xs"
  have len: "length ?r = length xs" by simp
  have j1: "1 \<le> j" using Suc.prems by simp
  have upt: "[1..<Suc j] = [1..<j] @ [j]" using j1 by simp
  have r': "fold (promotion_step rule) [1..<Suc j] xs = promotion_step rule j ?r"
    using j1 by (simp add: upt)
  show ?case
  proof (cases "m = j")
    case True
    have sl: "slice (j - 1) (j + 2) ?r = [?r ! (j - 1), ?r ! j, ?r ! (j + 1)]"
      using Suc.prems True by (intro slice_triple) (auto simp: len)
    have a: "?r ! j = xs ! j" by (rule fold_promotion_step_untouched) simp
    have b: "?r ! (j + 1) = xs ! (j + 1)" by (rule fold_promotion_step_untouched) simp
    have "promotion_step rule j ?r ! j = rule (slice (j - 1) (j + 2) ?r)"
      using Suc.prems by (simp add: promotion_step_nth len)
    also have "\<dots> = rule [?r ! (j - 1), xs ! j, xs ! (j + 1)]"
      by (simp only: sl a b)
    also have "?r ! (j - 1) = promotion_step rule j ?r ! (j - 1)"
    proof -
      have "j - 1 \<noteq> j" using j1 by arith
      moreover have "j < length ?r" using Suc.prems by (simp add: len)
      ultimately show ?thesis by (simp only: promotion_step_nth if_False)
    qed
    finally show ?thesis using True by (simp only: r')
  next
    case False
    then have "m < j" using Suc.prems by simp
    then have ne: "m \<noteq> j" "m - 1 \<noteq> j" by arith+
    have jl: "j < length ?r" using Suc.prems by (simp add: len)
    have "promotion_step rule j ?r ! m = ?r ! m"
      and "promotion_step rule j ?r ! (m - 1) = ?r ! (m - 1)"
      using ne jl by (simp_all only: promotion_step_nth if_False)
    moreover have "?r ! m = rule [?r ! (m - 1), xs ! m, xs ! (m + 1)]"
      using Suc.IH Suc.prems \<open>m < j\<close> by simp
    ultimately show ?thesis by (simp only: r')
  qed
qed

lemma promotion_nth_0: "promotion rule xs ! 0 = xs ! 0"
  unfolding promotion_def by (rule fold_promotion_step_untouched) simp

lemma promotion_nth_last:
  "promotion rule xs ! (length xs - 1) = xs ! (length xs - 1)"
  unfolding promotion_def by (rule fold_promotion_step_untouched) simp

lemma promotion_nth:
  assumes "1 \<le> m" "m + 1 < length xs"
  shows "promotion rule xs ! m = rule [promotion rule xs ! (m - 1), xs ! m, xs ! (m + 1)]"
  unfolding promotion_def using assms by (intro fold_promotion_step_rule) auto

lemma last_promotion: "xs \<noteq> [] \<Longrightarrow> last (promotion rule xs) = last xs"
proof -
  assume ne: "xs \<noteq> []"
  then have "promotion rule xs \<noteq> []" by (metis length_promotion length_0_conv)
  then show ?thesis using ne promotion_nth_last[of rule xs]
    by (simp add: last_conv_nth)
qed

section \<open>The growth triangle\<close>

text \<open>
  Row \<open>k\<close> of the triangle is the working list of the evacuation loop after \<open>k\<close>
  rounds. Each row starts with the first object of the element, and consecutive rows
  are related by the rule; the evacuated element is read off the last entries of the
  rows. With an involutive rule the triangle of the evacuated element is the same
  triangle read along the other side, which gives the original element back.
\<close>

lemma growth_row_0 [simp]: "growth_row rule s 0 = s"
  by (simp add: growth_row_def)

lemma growth_row_Suc:
  "growth_row rule s (Suc k) = butlast (promotion rule (growth_row rule s k))"
  by (simp add: growth_row_def evacuation_round_def)

lemma growth_row_shift:
  "growth_row rule s (Suc k) = growth_row rule (evacuation_round rule s) k"
  by (simp add: growth_row_def funpow_swap1)

lemma length_growth_row [simp]: "length (growth_row rule s k) = length s - k"
  by (induction k) (simp_all add: growth_row_Suc)

lemma growth_row_nth_0: "k < length s \<Longrightarrow> growth_row rule s k ! 0 = s ! 0"
proof (induction k)
  case 0
  then show ?case by simp
next
  case (Suc k)
  then show ?case
    by (simp add: growth_row_Suc nth_butlast promotion_nth_0)
qed

lemma growth_row_rule:
  assumes "1 \<le> m" "Suc k + m < length s"
  shows "growth_row rule s (Suc k) ! m =
         rule [growth_row rule s (Suc k) ! (m - 1), growth_row rule s k ! m,
               growth_row rule s k ! (m + 1)]"
proof -
  let ?r = "growth_row rule s k"
  have len: "length ?r = length s - k" by simp
  have a: "growth_row rule s (Suc k) ! m = promotion rule ?r ! m"
    using assms by (simp add: growth_row_Suc nth_butlast)
  have b: "growth_row rule s (Suc k) ! (m - 1) = promotion rule ?r ! (m - 1)"
    using assms by (simp add: growth_row_Suc nth_butlast)
  have "promotion rule ?r ! m = rule [promotion rule ?r ! (m - 1), ?r ! m, ?r ! (m + 1)]"
    using assms by (intro promotion_nth) (auto simp: len)
  then show ?thesis by (simp only: a b)
qed

lemma evacuation_loop_rows:
  "n \<le> length L \<Longrightarrow>
   evacuation_loop rule n L result =
     Inr (growth_row rule L n, result @ map (\<lambda>k. last (growth_row rule L k)) [0..<n])"
proof (induction n arbitrary: L result)
  case 0
  then show ?case by simp
next
  case (Suc n)
  then have ne: "L \<noteq> []" by auto
  then have pne: "promotion rule L \<noteq> []" by (metis length_promotion length_0_conv)
  have popped: "pop (promotion rule L) = Inr (last L, evacuation_round rule L)"
    using ne pne by (simp add: pop_def last_promotion evacuation_round_def)
  have le: "n \<le> length (evacuation_round rule L)"
    using Suc.prems by (simp add: evacuation_round_def)
  have idx: "map (\<lambda>k. last (growth_row rule L k)) [0..<Suc n] =
             last L # map (\<lambda>k. last (growth_row rule (evacuation_round rule L) k)) [0..<n]"
  proof -
    have "[0..<Suc n] = 0 # map Suc [0..<n]"
      by (simp add: upt_conv_Cons map_Suc_upt del: upt_Suc)
    then show ?thesis by (simp add: growth_row_shift comp_def del: upt_Suc)
  qed
  show ?case
    by (simp only: evacuation_loop.simps popped sum.case prod.case Suc.IH[OF le] idx
        growth_row_shift append_assoc append_Cons append_Nil)
qed

lemma length_evacuated [simp]: "length (evacuated rule s) = length s"
  by (simp add: evacuated_def)

lemma evacuation_eq:
  "3 \<le> length s \<Longrightarrow> evacuation rule s = Inr (evacuated rule s)"
  by (simp add: evacuation_def size_of_def evacuation_loop_rows evacuated_def)

lemma evacuation_short:
  "length s < 3 \<Longrightarrow> evacuation rule s = Inr s"
  by (simp add: evacuation_def size_of_def)

lemma evacuated_nth:
  assumes "m + q + 1 = length s"
  shows "evacuated rule s ! m = growth_row rule s q ! m"
proof -
  have m: "m < length s" using assms by simp
  have q: "length s - Suc m = q" using assms by simp
  have ql: "q < length s" using assms by simp
  have "evacuated rule s ! m = last (growth_row rule s q)"
    using m ql by (simp add: evacuated_def rev_nth q)
  also have "\<dots> = growth_row rule s q ! (length (growth_row rule s q) - 1)"
    using assms by (intro last_conv_nth) (auto simp flip: length_0_conv)
  also have "length (growth_row rule s q) - 1 = m" using assms by simp
  finally show ?thesis .
qed

lemma growth_row_evacuated:
  assumes inv: "involutive rule"
  shows "k + m + q + 1 = length s \<Longrightarrow>
         growth_row rule (evacuated rule s) k ! m = growth_row rule s q ! m"
proof (induction k arbitrary: m q)
  case 0
  then show ?case by (simp add: evacuated_nth)
next
  case (Suc k)
  let ?s' = "evacuated rule s"
  note outer = Suc.IH
  from Suc.prems show ?case
  proof (induction m arbitrary: q)
    case 0
    have "growth_row rule ?s' (Suc k) ! 0 = ?s' ! 0"
      using 0 by (intro growth_row_nth_0) simp
    also have "\<dots> = growth_row rule s (length s - 1) ! 0"
      using 0 by (intro evacuated_nth) simp
    also have "\<dots> = s ! 0" using 0 by (intro growth_row_nth_0) simp
    also have "\<dots> = growth_row rule s q ! 0"
      using 0 by (intro growth_row_nth_0[symmetric]) simp
    finally show ?case .
  next
    case (Suc m)
    have e1: "growth_row rule ?s' (Suc k) ! m = growth_row rule s (Suc q) ! m"
      using Suc.prems by (intro Suc.IH) simp
    have e2: "growth_row rule ?s' k ! Suc m = growth_row rule s (Suc q) ! Suc m"
      using Suc.prems by (intro outer) simp
    have e3: "growth_row rule ?s' k ! Suc (Suc m) = growth_row rule s q ! Suc (Suc m)"
      using Suc.prems by (intro outer) simp
    have new: "growth_row rule ?s' (Suc k) ! Suc m =
        rule [growth_row rule ?s' (Suc k) ! m, growth_row rule ?s' k ! Suc m,
              growth_row rule ?s' k ! Suc (Suc m)]"
      using growth_row_rule[of "Suc m" k ?s' rule] Suc.prems by simp
    have old: "growth_row rule s (Suc q) ! Suc m =
        rule [growth_row rule s (Suc q) ! m, growth_row rule s q ! Suc m,
              growth_row rule s q ! Suc (Suc m)]"
      using growth_row_rule[of "Suc m" q s rule] Suc.prems by simp
    have "growth_row rule ?s' (Suc k) ! Suc m =
        rule [growth_row rule s (Suc q) ! m, growth_row rule s (Suc q) ! Suc m,
              growth_row rule s q ! Suc (Suc m)]"
      by (simp only: new e1 e2 e3)
    also have "\<dots> = growth_row rule s q ! Suc m"
      using inv by (subst old) (simp add: involutive_def)
    finally show ?case .
  qed
qed

lemma evacuated_evacuated:
  assumes "involutive rule"
  shows "evacuated rule (evacuated rule s) = s"
proof (rule nth_equalityI)
  show "length (evacuated rule (evacuated rule s)) = length s" by simp
next
  fix m assume "m < length (evacuated rule (evacuated rule s))"
  then have m: "m < length s" by simp
  let ?q = "length s - Suc m"
  have "evacuated rule (evacuated rule s) ! m = growth_row rule (evacuated rule s) ?q ! m"
    using m by (intro evacuated_nth) simp
  also have "\<dots> = growth_row rule s 0 ! m"
    using m by (intro growth_row_evacuated[OF assms]) simp
  finally show "evacuated rule (evacuated rule s) ! m = s ! m" by simp
qed

section \<open>What the range check of the generators rejects\<close>

lemma involutive_reflect: "involutive reflect"
  by (simp add: involutive_def reflect_def)

lemma cactus_out_of_bounds:
  "\<not> (0 < i \<and> i < j \<and> j < size_of s) \<Longrightarrow> cactus rule s i j = Inl ValueError_out_of_bounds"
  by (simp add: cactus.simps)

text \<open>
  \<^verbatim>\<open>check_promotion\<close> starts with \<^verbatim>\<open>self.cactus(1,n)\<close> for \<open>n\<close> the size, which the
  range check never lets through: the method raises on every element.
\<close>

lemma check_promotion_never_returns:
  "check_promotion rule s = Inl ValueError_out_of_bounds"
  by (simp add: check_promotion_def cactus_out_of_bounds)

text \<open>
  \<^verbatim>\<open>orbit\<close> starts its sweep with \<^verbatim>\<open>a.cactus(1,1)\<close>, which the range check rejects;
  on the empty element the sweep is empty and the unbound name is reached.
\<close>

lemma orbit_never_returns:
  "orbit rule s = Inl (if s = [] then NameError ''orbit'' else ValueError_out_of_bounds)"
proof (cases s)
  case Nil
  then show ?thesis by (simp add: orbit_def)
next
  case (Cons x xs)
  have "[0..<length s] = 0 # [Suc 0..<length s]" using Cons by (subst upt_rec) simp
  then show ?thesis using Cons by (simp add: orbit_def cactus_out_of_bounds)
qed

section \<open>The generators, evaluated\<close>

lemma evacuation_total: "evacuation rule s = Inr (evacuation_result rule s)"
  by (cases "length s < 3") (simp_all add: evacuation_result_def evacuation_short evacuation_eq)

lemma length_evacuation_result [simp]: "length (evacuation_result rule s) = length s"
  by (simp add: evacuation_result_def)

lemma evacuation_result_twice:
  "involutive rule \<Longrightarrow> evacuation_result rule (evacuation_result rule s) = s"
  by (simp add: evacuation_result_def evacuated_evacuated)

lemma length_head_evacuated [simp]: "length (head_evacuated rule k s) = length s"
  by (simp add: head_evacuated_def)

lemma head_evacuated_twice:
  assumes "involutive rule"
  shows "head_evacuated rule k (head_evacuated rule k s) = s"
proof -
  let ?A = "evacuation_result rule (take k s)"
  have len: "length ?A = min (length s) k" by simp
  have t: "take k (?A @ drop k s) = ?A" by (cases "k \<le> length s") (simp_all add: len)
  have d: "drop k (?A @ drop k s) = drop k s" by (cases "k \<le> length s") (simp_all add: len)
  show ?thesis
    unfolding head_evacuated_def[of rule k "_ @ _"] head_evacuated_def[of rule k s]
    by (simp only: t d evacuation_result_twice[OF assms] append_take_drop_id)
qed

lemma cactus_first:
  assumes "1 < j" "j < size_of s"
  shows "cactus rule s 1 j = Inr (head_evacuated rule (nat (j - 1)) s)"
  using assms
  by (subst cactus.simps) (simp add: evacuation_total head_evacuated_def Let_def)

lemma cactus_general:
  assumes "1 < i" "i < j" "j < size_of s"
  shows "cactus rule s i j =
     (if j - i < 2 then Inl ValueError_out_of_bounds
      else Inr (head_evacuated rule (nat (j - 1))
             (head_evacuated rule (nat (j - i - 1))
               (head_evacuated rule (nat (j - 1)) s))))"
proof -
  let ?a = "head_evacuated rule (nat (j - 1)) s"
  have j: "1 < j" using assms by simp
  have a: "cactus rule s 1 j = Inr ?a" using j assms by (intro cactus_first)
  have sa: "size_of ?a = size_of s" by (simp add: size_of_def)
  show ?thesis
  proof (cases "j - i < 2")
    case True
    then have "cactus rule ?a 1 (j - i) = Inl ValueError_out_of_bounds"
      by (intro cactus_out_of_bounds) simp
    then show ?thesis using assms True
      by (subst cactus.simps) (simp add: a)
  next
    case False
    let ?b = "head_evacuated rule (nat (j - i - 1)) ?a"
    have b: "cactus rule ?a 1 (j - i) = Inr ?b"
      using False assms by (intro cactus_first) (simp_all add: sa)
    have sb: "size_of ?b = size_of s" by (simp add: size_of_def)
    have c: "cactus rule ?b 1 j = Inr (head_evacuated rule (nat (j - 1)) ?b)"
      using j assms by (intro cactus_first) (simp_all add: sb)
    show ?thesis using assms False
      by (subst cactus.simps) (simp add: a b c)
  qed
qed

lemma cactus_returns_iff:
  "(\<exists>t. cactus rule s i j = Inr t) \<longleftrightarrow>
   (0 < i \<and> i < j \<and> j < size_of s \<and> (i = 1 \<or> 2 \<le> j - i))"
proof (cases "0 < i \<and> i < j \<and> j < size_of s")
  case False
  then have "cactus rule s i j = Inl ValueError_out_of_bounds"
    by (rule cactus_out_of_bounds)
  then show ?thesis using False by auto
next
  case True
  show ?thesis
  proof (cases "i = 1")
    case True
    then show ?thesis using \<open>0 < i \<and> i < j \<and> j < size_of s\<close> by (simp add: cactus_first)
  next
    case False
    then have "1 < i" using True by simp
    then show ?thesis using True by (auto simp: cactus_general)
  qed
qed

lemma length_cactus:
  assumes "cactus rule s i j = Inr t"
  shows "length t = length s"
proof -
  have r: "0 < i \<and> i < j \<and> j < size_of s \<and> (i = 1 \<or> 2 \<le> j - i)"
    using assms cactus_returns_iff[of rule s i j] by blast
  show ?thesis
  proof (cases "i = 1")
    case True
    then show ?thesis using assms r by (auto simp: cactus_first)
  next
    case False
    then have "1 < i" using r by simp
    then show ?thesis using assms r by (auto simp: cactus_general split: if_splits)
  qed
qed

lemma cactus_twice:
  assumes inv: "involutive rule" and ret: "cactus rule s i j = Inr t"
  shows "cactus rule t i j = Inr s"
proof -
  have r: "0 < i \<and> i < j \<and> j < size_of s \<and> (i = 1 \<or> 2 \<le> j - i)"
    using ret cactus_returns_iff[of rule s i j] by blast
  have st: "size_of t = size_of s" using length_cactus[OF ret] by (simp add: size_of_def)
  show ?thesis
  proof (cases "i = 1")
    case True
    then have "t = head_evacuated rule (nat (j - 1)) s" using ret r by (simp add: cactus_first)
    then show ?thesis using True r st
      by (simp add: cactus_first head_evacuated_twice[OF inv])
  next
    case False
    then have i: "1 < i" and d: "\<not> j - i < 2" using r by simp_all
    have "t = head_evacuated rule (nat (j - 1))
             (head_evacuated rule (nat (j - i - 1))
               (head_evacuated rule (nat (j - 1)) s))"
      using ret r i d by (simp add: cactus_general)
    then show ?thesis using r i d st
      by (simp add: cactus_general head_evacuated_twice[OF inv])
  qed
qed

section \<open>The local rule at one position\<close>

lemma local_rule_rejects:
  "i \<le> 0 \<or> size_of s \<le> i \<Longrightarrow> local_rule rule s i = Inl (ValueError_not_valid_integer i)"
  by (auto simp: local_rule_def size_of_def)

lemma local_rule_interior:
  assumes "0 < i" "i < size_of s - 1"
  shows "local_rule rule s i =
     Inr (s[nat i := rule [s ! (nat i - 1), s ! nat i, s ! (nat i + 1)]])"
proof -
  have "1 \<le> nat i" "nat i + 1 < length s" using assms by (simp_all add: size_of_def)
  then have "slice (nat i - 1) (nat i + 2) s = [s ! (nat i - 1), s ! nat i, s ! (nat i + 1)]"
    by (rule slice_triple)
  then show ?thesis using assms by (simp add: local_rule_def size_of_def Let_def)
qed

lemma length_local_rule: "local_rule rule s i = Inr t \<Longrightarrow> length t = length s"
  by (auto simp: local_rule_def Let_def split: if_splits)

lemma local_rule_twice:
  assumes inv: "involutive rule" and i: "0 < i" "i < size_of s - 1"
  shows "\<exists>t. local_rule rule s i = Inr t \<and> local_rule rule t i = Inr s"
proof -
  let ?k = "nat i"
  let ?t = "s[?k := rule [s ! (?k - 1), s ! ?k, s ! (?k + 1)]]"
  have k: "1 \<le> ?k" "?k + 1 < length s" using i by (simp_all add: size_of_def)
  have t: "local_rule rule s i = Inr ?t" using i by (rule local_rule_interior)
  have it: "i < size_of ?t - 1" using i by (simp add: size_of_def)
  have "local_rule rule ?t i = Inr (?t[?k := rule [?t ! (?k - 1), ?t ! ?k, ?t ! (?k + 1)]])"
    using i(1) it by (rule local_rule_interior)
  also have "?t ! (?k - 1) = s ! (?k - 1)" using k by simp
  also have "?t ! (?k + 1) = s ! (?k + 1)" using k by simp
  also have "?t ! ?k = rule [s ! (?k - 1), s ! ?k, s ! (?k + 1)]" using k by simp
  also have "rule [s ! (?k - 1), rule [s ! (?k - 1), s ! ?k, s ! (?k + 1)], s ! (?k + 1)] = s ! ?k"
    using inv by (simp add: involutive_def)
  also have "?t[?k := s ! ?k] = s" by simp
  finally show ?thesis using t by blast
qed

lemma local_rule_store_refines:
  assumes "self < length st"
  shows "local_rule_store rule st self i =
     (case local_rule rule (st ! self) i of
        Inl e \<Rightarrow> Inl e
      | Inr t \<Rightarrow> Inr (Suc (length st), st @ [t, t]))"
  using assms
  by (simp add: local_rule_store_def local_rule_def new_list_def Let_def nth_append)

section \<open>The rows of the cylindrical diagram\<close>

lemma cylindrical_fold:
  assumes "k \<le> n"
  shows "fold (cylindrical_step rule) [0..<k] (replicate n filler, s) =
     (map (\<lambda>i. replicate i None @ map Some ((promotion rule ^^ i) s)) [0..<k]
        @ replicate (n - k) filler,
      (promotion rule ^^ k) s)"
  using assms
proof (induction k)
  case 0
  then show ?case by simp
next
  case (Suc k)
  let ?row = "\<lambda>i. replicate i None @ map Some ((promotion rule ^^ i) s)"
  have rest: "replicate (n - k) filler = filler # replicate (n - Suc k) filler"
    using Suc.prems by (simp add: Suc_diff_Suc flip: replicate_Suc)
  have upd: "(map ?row [0..<k] @ replicate (n - k) filler)[k := v] =
             map ?row [0..<k] @ v # replicate (n - Suc k) filler" for v
    by (simp add: rest list_update_append)
  have "fold (cylindrical_step rule) [0..<Suc k] (replicate n filler, s) =
        cylindrical_step rule k (fold (cylindrical_step rule) [0..<k] (replicate n filler, s))"
    by simp
  also have "\<dots> = cylindrical_step rule k
        (map ?row [0..<k] @ replicate (n - k) filler, (promotion rule ^^ k) s)"
    using Suc by simp
  also have "\<dots> = (map ?row [0..<k] @ ?row k # replicate (n - Suc k) filler,
                     (promotion rule ^^ Suc k) s)"
    by (simp only: cylindrical_step_def prod.case upd funpow.simps comp_def)
  finally show ?case by simp
qed

lemma cylindrical_diagram_rows:
  "cylindrical_diagram rule s =
     map (\<lambda>i. replicate i None @ map Some ((promotion rule ^^ i) s)) [0..<length s]"
  by (simp add: cylindrical_diagram_def Let_def cylindrical_fold)

lemma length_funpow_promotion [simp]: "length ((promotion rule ^^ i) s) = length s"
  by (induction i) simp_all

section \<open>The claims\<close>

text \<open>
  Claim C1 (the generator raises exactly when \<open>0 < i < j \<le> size\<close> is violated). On the
  three-term element \<open>[1, 5, 2]\<close> the pair \<open>(1, 3)\<close> satisfies \<open>0 < i < j \<le> size\<close>, and the
  generator raises the range error all the same: the check of the source asks for
  \<open>j < size\<close>.
\<close>

theorem cactus_rejects_j_equal_size:
  "0 < (1::int) \<and> (1::int) < 3 \<and> 3 \<le> size_of [1, 5, 2 :: int]
   \<and> cactus reflect [1, 5, 2] 1 3 = Inl ValueError_out_of_bounds"
  by (simp add: cactus.simps size_of_def)

text \<open>
  Claim C2 (promotion is \<open>cactus(2, n)\<close> after \<open>cactus(1, n)\<close>, and \<^verbatim>\<open>check_promotion\<close>
  returns true). With an involutive rule and the three-term element \<open>[1, 5, 2]\<close>,
  \<^verbatim>\<open>check_promotion\<close> returns no boolean: it ends with the range error of
  \<open>cactus(1, 3)\<close>.
\<close>

theorem check_promotion_raises_on_three_terms:
  "involutive reflect \<and> 2 \<le> size_of [1, 5, 2 :: int]
   \<and> check_promotion reflect [1, 5, 2] = Inl ValueError_out_of_bounds"
  by (simp add: check_promotion_def cactus.simps size_of_def involutive_def reflect_def)

text \<open>
  Claim C3 (the generator with equal endpoints is the identity and does not raise). On
  \<open>[1, 5, 2]\<close> with \<open>i = j = 2\<close> the generator raises the range error: the check asks for
  \<open>i < j\<close>, so the branch \<^verbatim>\<open>if i == j: return self\<close> behind it is never reached.
\<close>

theorem cactus_rejects_equal_endpoints:
  "0 < (2::int) \<and> (2::int) \<le> size_of [1, 5, 2 :: int]
   \<and> cactus reflect [1, 5, 2] 2 2 = Inl ValueError_out_of_bounds"
  by (simp add: cactus.simps size_of_def)

text \<open>
  Claim C4 (with an involutive rule every generator with \<open>0 < i < j \<le> size\<close> applied
  twice gives the element back). On the four-term element \<open>[1, 5, 2, 7]\<close> the pair
  \<open>(1, 4)\<close> is in that range, and already the first application raises the range
  error, so there is no result to apply the generator to again. (On the pairs the
  range check lets through, lemma \<open>cactus_twice\<close> gives the involution.)
\<close>

theorem cactus_involution_rejects_j_equal_size:
  "involutive reflect \<and> 0 < (1::int) \<and> (1::int) < 4 \<and> 4 \<le> size_of [1, 5, 2, 7 :: int]
   \<and> cactus reflect [1, 5, 2, 7] 1 4 = Inl ValueError_out_of_bounds"
  by (simp add: cactus.simps size_of_def involutive_def reflect_def)

text \<open>
  Claim C5 (evacuation is an involution, and the identity on elements shorter than
  three). For every rule that satisfies the contract and every element \<open>s\<close>:
  \<^verbatim>\<open>evacuation\<close> returns, on an element of size at least three applying it to
  its result returns \<open>s\<close> again, and on an element of size below three it returns \<open>s\<close>.
\<close>

theorem evacuation_involution:
  assumes "involutive rule"
  shows "(3 \<le> size_of s \<longrightarrow> (\<exists>t. evacuation rule s = Inr t \<and> evacuation rule t = Inr s))
       \<and> (size_of s < 3 \<longrightarrow> evacuation rule s = Inr s)"
proof (intro conjI impI)
  have "evacuation rule (evacuation_result rule s) = Inr s"
    by (simp add: evacuation_total evacuation_result_twice[OF assms])
  then show "\<exists>t. evacuation rule s = Inr t \<and> evacuation rule t = Inr s"
    using evacuation_total[of rule s] by blast
next
  assume "size_of s < 3"
  then show "evacuation rule s = Inr s" by (simp add: evacuation_def)
qed

text \<open>The five-term element \<open>[1, 5, 2, 7, 3]\<close> and the two-term element \<open>[1, 5]\<close>.\<close>

theorem evacuation_involution_witness:
  "involutive reflect
   \<and> 3 \<le> size_of [1, 5, 2, 7, 3 :: int]
   \<and> (\<exists>t. evacuation reflect [1, 5, 2, 7, 3] = Inr t \<and> evacuation reflect t = Inr [1, 5, 2, 7, 3])
   \<and> size_of [1, 5 :: int] < 3
   \<and> evacuation reflect [1, 5] = Inr [1, 5]"
  using evacuation_involution[OF involutive_reflect, of "[1, 5, 2, 7, 3]"]
    evacuation_involution[OF involutive_reflect, of "[1, 5]"] involutive_reflect
  by (simp add: size_of_def)

text \<open>
  Claim C6 (the local rule at an interior position is an involution and does not
  change its input). For every rule that satisfies the contract, every element \<open>s\<close>
  and every interior position \<open>i\<close>: \<^verbatim>\<open>local_rule\<close> returns some \<open>t\<close>, and applied to
  \<open>t\<close> at \<open>i\<close> it returns \<open>s\<close>. On a store in which the reference \<open>self\<close> holds \<open>s\<close>,
  the call returns a reference to that same \<open>t\<close> and leaves \<open>s\<close> at \<open>self\<close>.
\<close>

theorem local_rule_involution:
  assumes "involutive rule" "0 < i" "i < size_of s - 1"
  shows "(\<exists>t. local_rule rule s i = Inr t \<and> local_rule rule t i = Inr s)
       \<and> (\<forall>st self. self < length st \<and> st ! self = s \<longrightarrow>
            (\<exists>r st'. local_rule_store rule st self i = Inr (r, st')
                    \<and> st' ! self = s \<and> local_rule rule s i = Inr (st' ! r)))"
proof (intro conjI allI impI)
  show "\<exists>t. local_rule rule s i = Inr t \<and> local_rule rule t i = Inr s"
    using assms by (rule local_rule_twice)
next
  fix st :: "'a list list" and self
  assume a: "self < length st \<and> st ! self = s"
  obtain t where t: "local_rule rule s i = Inr t"
    using local_rule_twice[OF assms] by blast
  have "local_rule_store rule st self i = Inr (Suc (length st), st @ [t, t])"
    using a t by (simp add: local_rule_store_refines)
  moreover have "(st @ [t, t]) ! self = s" using a by (simp add: nth_append)
  moreover have "(st @ [t, t]) ! Suc (length st) = t" by (simp add: nth_append)
  ultimately show "\<exists>r st'. local_rule_store rule st self i = Inr (r, st')
                    \<and> st' ! self = s \<and> local_rule rule s i = Inr (st' ! r)"
    using t by auto
qed

text \<open>Position \<open>1\<close> of \<open>[1, 5, 2]\<close>, there and back, and on the one-cell store.\<close>

theorem local_rule_involution_witness:
  "involutive reflect \<and> (0::int) < 1 \<and> 1 < size_of [1, 5, 2 :: int] - 1
   \<and> local_rule reflect [1, 5, 2] 1 = Inr [1, - 2, 2]
   \<and> local_rule reflect [1, - 2, 2] 1 = Inr [1, 5, 2]
   \<and> (0::nat) < length [[1, 5, 2 :: int]]
   \<and> local_rule_store reflect [[1, 5, 2]] 0 1 = Inr (2, [[1, 5, 2], [1, - 2, 2], [1, - 2, 2]])"
  using local_rule_involution[OF involutive_reflect, of 1 "[1, 5, 2]"] involutive_reflect
  by (simp add: size_of_def local_rule_def local_rule_store_def new_list_def slice_def reflect_def)

text \<open>
  Claim C7, as amended (when the local rule raises and what it returns). For every
  element \<open>s\<close> and integer \<open>i\<close>: if \<open>i \<le> 0\<close> or \<open>i \<ge> size\<close>, \<^verbatim>\<open>local_rule\<close> raises the
  \<^verbatim>\<open>ValueError\<close> that names \<open>i\<close>; if \<open>i\<close> is an interior position, it returns \<open>s\<close>
  with position \<open>i\<close> replaced by the rule applied to the three terms around it.
\<close>

theorem local_rule_cases:
  "(i \<le> 0 \<or> size_of s \<le> i \<longrightarrow> local_rule rule s i = Inl (ValueError_not_valid_integer i))
   \<and> (0 < i \<and> i < size_of s - 1 \<longrightarrow>
        local_rule rule s i =
          Inr (s[nat i := rule [s ! (nat i - 1), s ! nat i, s ! (nat i + 1)]]))"
  using local_rule_rejects[of i s rule] local_rule_interior[of i s rule] by blast

text \<open>The positions \<open>0\<close>, \<open>3\<close> and \<open>1\<close> of \<open>[1, 5, 2]\<close>.\<close>

theorem local_rule_cases_witness:
  "(0::int) \<le> 0 \<and> local_rule reflect [1, 5, 2] 0 = Inl (ValueError_not_valid_integer 0)
   \<and> size_of [1, 5, 2 :: int] \<le> 3 \<and> local_rule reflect [1, 5, 2] 3 = Inl (ValueError_not_valid_integer 3)
   \<and> (0::int) < 1 \<and> 1 < size_of [1, 5, 2 :: int] - 1
   \<and> local_rule reflect [1, 5, 2] 1 = Inr [1, - 2, 2]"
  using local_rule_cases[of 0 "[1, 5, 2]" reflect] local_rule_cases[of 3 "[1, 5, 2]" reflect]
    local_rule_cases[of 1 "[1, 5, 2]" reflect]
  by (simp add: size_of_def reflect_def)

text \<open>
  Claim C7 as stated asks for an \<^verbatim>\<open>IndexError\<close> exactly at the positions that are
  not interior. On \<open>[1, 5, 2]\<close> position \<open>0\<close> gives a \<^verbatim>\<open>ValueError\<close>, and position
  \<open>2\<close>, the last one and so not interior, gives no error at all: the rule is called
  with the two-term slice \<open>[5, 2]\<close> and its value is stored at position \<open>2\<close>.
\<close>

theorem local_rule_error_counterexample:
  "local_rule reflect [1, 5, 2] 0 = Inl (ValueError_not_valid_integer 0)
   \<and> class_of (ValueError_not_valid_integer 0) \<noteq> IndexError_class
   \<and> \<not> ((0::int) < 2 \<and> 2 < size_of [1, 5, 2 :: int] - 1)
   \<and> local_rule reflect [1, 5, 2] 2 = Inr [1, 5, 0]"
  by (simp add: local_rule_def size_of_def slice_def reflect_def)

text \<open>
  Claim C8, as amended (the rows of the cylindrical diagram). For every element \<open>s\<close> of
  size \<open>n\<close> the diagram has \<open>n\<close> rows; row \<open>i\<close> is \<open>i\<close> placeholders followed by
  the element obtained from \<open>s\<close> by \<open>i\<close> promotions, so it has length \<open>n + i\<close>; and
  row \<open>0\<close> is \<open>s\<close> itself.
\<close>

theorem cylindrical_diagram_table:
  "length (cylindrical_diagram rule s) = length s
   \<and> (\<forall>i < length s.
         cylindrical_diagram rule s ! i = replicate i None @ map Some ((promotion rule ^^ i) s)
         \<and> length (cylindrical_diagram rule s ! i) = length s + i)
   \<and> (s \<noteq> [] \<longrightarrow> cylindrical_diagram rule s ! 0 = map Some s)"
  by (auto simp: cylindrical_diagram_rows)

text \<open>The rows \<open>1\<close> and \<open>0\<close> of the diagram of \<open>[1, 5, 2]\<close>.\<close>

theorem cylindrical_diagram_table_witness:
  "(1::nat) < length [1, 5, 2 :: int]
   \<and> cylindrical_diagram reflect [1, 5, 2] ! 1 = [None, Some 1, Some (- 2), Some 2]
   \<and> length (cylindrical_diagram reflect [1, 5, 2] ! 1) = 4
   \<and> [1, 5, 2 :: int] \<noteq> []
   \<and> cylindrical_diagram reflect [1, 5, 2] ! 0 = [Some 1, Some 5, Some 2]"
  using cylindrical_diagram_table[of reflect "[1, 5, 2]"]
  by (simp add: promotion_def promotion_step_def slice_def reflect_def)

text \<open>
  Claim C8 as stated asks every row to have length \<open>2n - 1\<close>. The diagram of the
  two-term element \<open>[1, 5]\<close> has a row \<open>0\<close> of length \<open>2\<close>, not \<open>3\<close>.
\<close>

theorem cylindrical_diagram_row_length_counterexample:
  "cylindrical_diagram reflect [1, 5] = [[Some 1, Some 5], [None, Some 1, Some 5]]
   \<and> length (cylindrical_diagram reflect [1, 5] ! 0) \<noteq> 2 * length [1, 5 :: int] - 1"
  by (simp add: cylindrical_diagram_def cylindrical_step_def promotion_def)

text \<open>
  Claim C9 (\<^verbatim>\<open>orbit\<close> terminates and returns the closure under the generators). On
  \<open>[1, 5, 2]\<close> it returns no set: the first generator it applies is \<open>cactus(1, 1)\<close>, which
  raises the range error.
\<close>

theorem orbit_raises_on_three_terms:
  "orbit reflect [1, 5, 2] = Inl ValueError_out_of_bounds"
  by (simp add: orbit_def cactus.simps size_of_def upt_conv_Cons)

text \<open>
  Claim C10 (each operator returns, on valid arguments, an element of the size of its
  input). On the five-term element \<open>[1, 5, 2, 7, 3]\<close> the pair \<open>(2, 3)\<close> satisfies
  \<open>0 < i < j \<le> size\<close>, and even the stricter \<open>0 < i < j < size\<close> that the range check of
  the source asks for; the generator returns no element all the same. It calls
  \<open>cactus(1, 3)\<close> and then \<open>cactus(1, 1)\<close>, which the range check rejects. (What the
  operators do return has the size of the input: lemmas \<open>length_promotion\<close>,
  \<open>length_evacuation_result\<close>, \<open>length_local_rule\<close> and \<open>length_cactus\<close>.)
\<close>

theorem cactus_raises_on_adjacent_endpoints:
  "0 < (2::int) \<and> (2::int) < 3 \<and> 3 < size_of [1, 5, 2, 7, 3 :: int]
   \<and> cactus reflect [1, 5, 2, 7, 3] 2 3 = Inl ValueError_out_of_bounds"
  using cactus_general[of 2 3 "[1, 5, 2, 7, 3]" reflect]
  by (simp add: size_of_def)

end
